theory Spec2Isabelle
  imports Complex_Main
begin

section \<open>Values held by the board\<close>

text \<open>
  The board of \<^verbatim>\<open>App.js\<close> is a JavaScript array whose slots hold \<^verbatim>\<open>null\<close>,
  \<^verbatim>\<open>'X'\<close> or \<^verbatim>\<open>'O'\<close>. An assignment past the end of an array extends it and
  leaves holes, and reading a hole or an index past the end gives \<^verbatim>\<open>undefined\<close>.
  \<open>Hole\<close> stands for both: a slot that was never written, and the value such a read gives.
\<close>

datatype mark = MarkX | MarkO

datatype cell = Hole | Null | Filled mark

type_synonym board = "cell list"

text \<open>\<^verbatim>\<open>squares[i]\<close>: reading never fails, out of range it gives \<^verbatim>\<open>undefined\<close>.\<close>

definition slot :: "board \<Rightarrow> nat \<Rightarrow> cell" where
  "slot sq i = (if i < length sq then sq ! i else Hole)"

text \<open>\<^verbatim>\<open>next[i] = v\<close>: inside the array the slot is overwritten, past its end the
  array grows up to index \<open>i\<close> and the slots in between are holes.\<close>

definition assign :: "board \<Rightarrow> nat \<Rightarrow> cell \<Rightarrow> board" where
  "assign sq i v =
     (if i < length sq then sq[i := v]
      else sq @ replicate (i - length sq) Hole @ [v])"

text \<open>Truthiness: \<^verbatim>\<open>null\<close> and \<^verbatim>\<open>undefined\<close> are falsy, a non-empty string is truthy.\<close>

fun truthy :: "cell \<Rightarrow> bool" where
  "truthy (Filled m) = True"
| "truthy Null = False"
| "truthy Hole = False"

text \<open>\<^verbatim>\<open>Array(9).fill(null)\<close>\<close>

definition emptyBoard :: board where
  "emptyBoard = replicate 9 Null"

section \<open>Board helpers\<close>

definition LINES :: "(nat \<times> nat \<times> nat) list" where
  "LINES = [(0,1,2), (3,4,5), (6,7,8),
            (0,3,6), (1,4,7), (2,5,8),
            (0,4,8), (2,4,6)]"

text \<open>
  \<^verbatim>\<open>calculateWinner\<close> returns \<^verbatim>\<open>null\<close> (here \<open>None\<close>), the object
  \<^verbatim>\<open>{ winner: squares[a], line: [a,b,c] }\<close> (here \<open>Won\<close>) or the object
  \<^verbatim>\<open>{ winner: null, line: [], isDraw: true }\<close> (here \<open>Draw\<close>).
\<close>

datatype result = Won mark "nat list" | Draw

text \<open>The \<^verbatim>\<open>for (const [a,b,c] of LINES)\<close> loop with its early return. The test
  \<^verbatim>\<open>squares[a] && ...\<close> passes only for a truthy slot, that is a mark.\<close>

fun lineLoop :: "board \<Rightarrow> (nat \<times> nat \<times> nat) list \<Rightarrow> result option" where
  "lineLoop sq [] = None"
| "lineLoop sq ((a, b, c) # rest) =
     (case slot sq a of
        Filled m \<Rightarrow>
          if slot sq a = slot sq b \<and> slot sq a = slot sq c then Some (Won m [a, b, c])
          else lineLoop sq rest
      | _ \<Rightarrow> lineLoop sq rest)"

text \<open>\<^verbatim>\<open>squares.every(Boolean)\<close>: \<^verbatim>\<open>every\<close> does not visit holes, so only a
  \<^verbatim>\<open>null\<close> slot makes it false.\<close>

definition everyBoolean :: "board \<Rightarrow> bool" where
  "everyBoolean sq = list_all (\<lambda>c. c \<noteq> Null) sq"

definition calculateWinner :: "board \<Rightarrow> result option" where
  "calculateWinner squares =
     (case lineLoop squares LINES of
        Some r \<Rightarrow> Some r
      | None \<Rightarrow> if everyBoolean squares then Some Draw else None)"

text \<open>
  \<^verbatim>\<open>xs[Math.floor(Math.random() * xs.length)]\<close>. The draw \<^verbatim>\<open>Math.random()\<close> is a
  parameter \<open>r\<close> of the functions that make it; the language promises \<open>0 \<le> r < 1\<close>, and
  then the index is in range. Outside that range the read would give \<^verbatim>\<open>undefined\<close>, which
  the only caller treats as it treats \<^verbatim>\<open>null\<close> (\<^verbatim>\<open>??\<close> passes it by, and
  \<^verbatim>\<open>board[undefined] === null\<close> is false), so it is \<open>None\<close> here.
  The product is taken exactly, where the code rounds it to a double before
  \<^verbatim>\<open>Math.floor\<close>: for the lists of at most nine indices used here the rounded product of
  a draw below 1 stays below the length, so the index is in range either way, and only
  which element a borderline draw selects can differ.
\<close>

definition randomIndex :: "real \<Rightarrow> nat \<Rightarrow> int" where
  "randomIndex r n = \<lfloor>r * real n\<rfloor>"

definition pick :: "nat list \<Rightarrow> real \<Rightarrow> nat option" where
  "pick xs r =
     (let k = randomIndex r (length xs)
      in if 0 \<le> k \<and> k < int (length xs) then Some (xs ! nat k) else None)"

text \<open>\<^verbatim>\<open>board.map((v,i) => (v ? null : i)).filter(v => v !== null)\<close>: neither
  \<^verbatim>\<open>map\<close> nor \<^verbatim>\<open>filter\<close> visits a hole, so the indices kept are those of the
  \<^verbatim>\<open>null\<close> slots.\<close>

definition pickRandomMove :: "board \<Rightarrow> real \<Rightarrow> nat option" where
  "pickRandomMove board r =
     (let empty = filter (\<lambda>i. slot board i = Null) [0..<length board]
      in if length empty = 0 then None
         else pick empty r)"

text \<open>\<^verbatim>\<open>emptyIndices\<close> pushes every index below \<^verbatim>\<open>board.length\<close> whose slot is
  falsy.\<close>

definition emptyIndices :: "board \<Rightarrow> nat list" where
  "emptyIndices board = filter (\<lambda>i. \<not> truthy (slot board i)) [0..<length board]"

text \<open>\<^verbatim>\<open>calculateWinner(copy)?.winner === p\<close> for a mark \<open>p\<close>: the winner field of
  a draw is \<^verbatim>\<open>null\<close>, and \<^verbatim>\<open>null?.winner\<close> is \<^verbatim>\<open>undefined\<close>.\<close>

fun winnerIs :: "result option \<Rightarrow> mark \<Rightarrow> bool" where
  "winnerIs (Some (Won m l)) p = (m = p)"
| "winnerIs (Some Draw) p = False"
| "winnerIs None p = False"

text \<open>The test made on each empty index by the first two loops of
  \<^verbatim>\<open>findBestAIMove\<close>: copy the board, place the mark, evaluate.\<close>

definition completes :: "board \<Rightarrow> mark \<Rightarrow> nat \<Rightarrow> bool" where
  "completes board p i = winnerIs (calculateWinner (assign board i (Filled p))) p"

definition findBestAIMove :: "board \<Rightarrow> mark \<Rightarrow> mark \<Rightarrow> real \<Rightarrow> nat option" where
  "findBestAIMove board ai human r =
     (case find (completes board ai) (emptyIndices board) of
        Some i \<Rightarrow> Some i
      | None \<Rightarrow>
     (case find (completes board human) (emptyIndices board) of
        Some i \<Rightarrow> Some i
      | None \<Rightarrow>
     if slot board 4 = Null then Some 4
     else let corners = filter (\<lambda>i. slot board i = Null) [0, 2, 6, 8] in
     if length corners \<noteq> 0 then pick corners r
     else let sides = filter (\<lambda>i. slot board i = Null) [1, 3, 5, 7] in
     if length sides \<noteq> 0 then pick sides r
     else None))"

section \<open>The session held by the App component\<close>

datatype mode = Pvp | Cpu

record scores =
  xWins :: nat
  oWins :: nat
  draws :: nat

record session =
  board :: board
  xIsNext :: bool
  mode :: mode
  scores :: scores
  highlight :: "nat list"

definition initial :: session where
  "initial = \<lparr> board = emptyBoard, xIsNext = True, mode = Pvp,
               scores = \<lparr> xWins = 0, oWins = 0, draws = 0 \<rparr>, highlight = [] \<rparr>"

text \<open>\<^verbatim>\<open>s => ({ ...s, [res.winner]: (s[res.winner] || 0) + 1 })\<close>\<close>

fun bump :: "mark \<Rightarrow> scores \<Rightarrow> scores" where
  "bump MarkX sc = sc\<lparr> xWins := xWins sc + 1 \<rparr>"
| "bump MarkO sc = sc\<lparr> oWins := oWins sc + 1 \<rparr>"

text \<open>
  The effect on \<^verbatim>\<open>[board]\<close> (detect winner or draw, update scores and highlight).
  React runs it after a render in which the board state holds a new array, so the
  operations below run it exactly when they call \<^verbatim>\<open>setBoard\<close>.
\<close>

definition boardEffect :: "session \<Rightarrow> session" where
  "boardEffect s =
     (case calculateWinner (board s) of
        Some (Won m l) \<Rightarrow> s\<lparr> highlight := l, scores := bump m (scores s) \<rparr>
      | Some Draw \<Rightarrow> s\<lparr> scores := (scores s)\<lparr> draws := draws (scores s) + 1 \<rparr> \<rparr>
      | None \<Rightarrow> s\<lparr> highlight := [] \<rparr>)"

definition handleClick :: "session \<Rightarrow> nat \<Rightarrow> session" where
  "handleClick s i =
     (if calculateWinner (board s) \<noteq> None \<or> truthy (slot (board s) i) then s
      else if mode s = Cpu \<and> \<not> xIsNext s then s
      else boardEffect
             (s\<lparr> board := assign (board s) i (Filled (if xIsNext s then MarkX else MarkO)),
                 xIsNext := \<not> xIsNext s \<rparr>))"

definition resetBoard :: "session \<Rightarrow> session" where
  "resetBoard s = boardEffect (s\<lparr> board := emptyBoard, xIsNext := True, highlight := [] \<rparr>)"

definition resetScores :: "session \<Rightarrow> session" where
  "resetScores s = s\<lparr> scores := \<lparr> xWins = 0, oWins = 0, draws = 0 \<rparr> \<rparr>"

text \<open>The handlers of the two mode buttons:
  \<^verbatim>\<open>() => { setMode('cpu'); resetBoard(); }\<close>\<close>

definition selectMode :: "session \<Rightarrow> mode \<Rightarrow> session" where
  "selectMode s m = resetBoard (s\<lparr> mode := m \<rparr>)"

text \<open>
  The computer's move: the body of the timer set by the effect on
  \<^verbatim>\<open>[mode, xIsNext, board]\<close>, under the condition that sets the timer. \<open>r1\<close> is the
  draw made inside \<^verbatim>\<open>findBestAIMove\<close>, \<open>r2\<close> the one inside \<^verbatim>\<open>pickRandomMove\<close>.
\<close>

definition chosenMove :: "board \<Rightarrow> real \<Rightarrow> real \<Rightarrow> nat option" where
  "chosenMove b r1 r2 =
     (case findBestAIMove b MarkO MarkX r1 of
        Some i \<Rightarrow> Some i
      | None \<Rightarrow> pickRandomMove b r2)"

definition cpuMove :: "session \<Rightarrow> real \<Rightarrow> real \<Rightarrow> session" where
  "cpuMove s r1 r2 =
     (if mode s = Cpu \<and> calculateWinner (board s) = None \<and> \<not> xIsNext s then
        (case chosenMove (board s) r1 r2 of
           Some move \<Rightarrow>
             if slot (board s) move = Null
             then boardEffect (s\<lparr> board := assign (board s) move (Filled MarkO), xIsNext := True \<rparr>)
             else s
         | None \<Rightarrow> s)
      else s)"

text \<open>The operations a session goes through, and one step of each.\<close>

datatype operation =
    Click nat
  | CpuTimer real real
  | ResetBoard
  | ResetScores
  | SelectMode mode

fun step :: "session \<Rightarrow> operation \<Rightarrow> session" where
  "step s (Click i) = handleClick s i"
| "step s (CpuTimer r1 r2) = cpuMove s r1 r2"
| "step s ResetBoard = resetBoard s"
| "step s ResetScores = resetScores s"
| "step s (SelectMode m) = selectMode s m"

text \<open>A board as the game builds it: nine slots, each \<^verbatim>\<open>null\<close> or a mark.\<close>

definition wellFormed :: "board \<Rightarrow> bool" where
  "wellFormed b = (length b = 9 \<and> list_all (\<lambda>c. c \<noteq> Hole) b)"

section \<open>Resetting\<close>

lemma emptyBoard_slots:
  "emptyBoard = [Null, Null, Null, Null, Null, Null, Null, Null, Null]"
  by (simp add: emptyBoard_def eval_nat_numeral)

lemma calculateWinner_emptyBoard: "calculateWinner emptyBoard = None"
  by (simp add: calculateWinner_def LINES_def slot_def emptyBoard_slots everyBoolean_def)

lemma resetBoard_eq:
  "resetBoard s = s\<lparr> board := emptyBoard, xIsNext := True, highlight := [] \<rparr>"
  by (simp add: resetBoard_def boardEffect_def calculateWinner_emptyBoard)

text \<open>
  C9: for every session state, resetting the board twice in a row gives exactly the
  state that resetting it once gives (board, turn, outcome, highlight, scoreboard, mode).
\<close>

theorem resetBoard_idempotent: "resetBoard (resetBoard s) = resetBoard s"
  by (simp add: resetBoard_eq)

text \<open>
  C6: for every session state and every mode argument, choosing a mode leaves an empty
  board, the turn with X, an ongoing game and no highlight, and the three counters of the
  scoreboard as they were; the mode is the one chosen.
\<close>

theorem selectMode_resets:
  "board (selectMode s m) = replicate 9 Null \<and>
   xIsNext (selectMode s m) = True \<and>
   calculateWinner (board (selectMode s m)) = None \<and>
   highlight (selectMode s m) = [] \<and>
   scores (selectMode s m) = scores s \<and>
   mode (selectMode s m) = m"
  using calculateWinner_emptyBoard
  by (simp add: selectMode_def resetBoard_eq emptyBoard_def)

section \<open>Clicks that are ignored\<close>

text \<open>
  C2, as the code has it: for every session state and every index, a click on an occupied
  cell, a click while it is the computer's turn in the mode against the computer, and a
  click once the game is won or drawn leave the whole session state unchanged.
\<close>

theorem handleClick_invalid_noop:
  "calculateWinner (board s) \<noteq> None \<or> truthy (slot (board s) i) \<or> (mode s = Cpu \<and> \<not> xIsNext s)
   \<Longrightarrow> handleClick s i = s"
  by (auto simp add: handleClick_def)

theorem handleClick_invalid_noop_witness:
  "handleClick (initial\<lparr> board := assign emptyBoard 4 (Filled MarkX), xIsNext := False \<rparr>) 4
     = initial\<lparr> board := assign emptyBoard 4 (Filled MarkX), xIsNext := False \<rparr>
   \<and> handleClick (initial\<lparr> mode := Cpu, xIsNext := False \<rparr>) 0
     = initial\<lparr> mode := Cpu, xIsNext := False \<rparr>
   \<and> handleClick (initial\<lparr> board := replicate 3 (Filled MarkX) @ replicate 6 Null \<rparr>) 5
     = initial\<lparr> board := replicate 3 (Filled MarkX) @ replicate 6 Null \<rparr>"
  using handleClick_invalid_noop
      [of "initial\<lparr> board := assign emptyBoard 4 (Filled MarkX), xIsNext := False \<rparr>" 4]
    handleClick_invalid_noop [of "initial\<lparr> mode := Cpu, xIsNext := False \<rparr>" 0]
    handleClick_invalid_noop
      [of "initial\<lparr> board := replicate 3 (Filled MarkX) @ replicate 6 Null \<rparr>" 5]
  by (simp add: initial_def emptyBoard_slots assign_def slot_def calculateWinner_def LINES_def
      eval_nat_numeral)

text \<open>
  C2 as stated fails for an index out of range: nothing in \<^verbatim>\<open>handleClick\<close> looks at the
  range of the index, the slot read is \<^verbatim>\<open>undefined\<close>, not occupied, and the assignment
  extends the array. On the initial session a click on index 9 adds a tenth slot holding X
  and passes the turn.
\<close>

theorem handleClick_out_of_range_counterexample:
  "\<not> (9::nat) \<le> 8
   \<and> handleClick initial 9 = initial\<lparr> board := emptyBoard @ [Filled MarkX], xIsNext := False \<rparr>
   \<and> handleClick initial 9 \<noteq> initial"
  by (simp add: handleClick_def initial_def assign_def slot_def emptyBoard_slots
      boardEffect_def calculateWinner_def LINES_def everyBoolean_def)

section \<open>The evaluation of a board\<close>

lemma lineLoop_hit:
  "slot sq a = Filled m \<Longrightarrow> slot sq b = Filled m \<Longrightarrow> slot sq c = Filled m \<Longrightarrow>
   lineLoop sq ((a, b, c) # rest) = Some (Won m [a, b, c])"
  by simp

lemma lineLoop_miss:
  "\<not> (\<exists>m. slot sq a = Filled m \<and> slot sq b = Filled m \<and> slot sq c = Filled m) \<Longrightarrow>
   lineLoop sq ((a, b, c) # rest) = lineLoop sq rest"
  by (cases "slot sq a") auto

lemma lineLoop_None_iff:
  "lineLoop sq ls = None \<longleftrightarrow>
   (\<forall>(a, b, c) \<in> set ls. \<not> (\<exists>m. slot sq a = Filled m \<and> slot sq b = Filled m \<and> slot sq c = Filled m))"
proof (induction ls)
  case Nil
  show ?case by simp
next
  case (Cons x xs)
  obtain a b c where x: "x = (a, b, c)" by (cases x)
  show ?case
  proof (cases "\<exists>m. slot sq a = Filled m \<and> slot sq b = Filled m \<and> slot sq c = Filled m")
    case True
    then obtain m where "slot sq a = Filled m" "slot sq b = Filled m" "slot sq c = Filled m"
      by blast
    then have "lineLoop sq (x # xs) = Some (Won m [a, b, c])"
      unfolding x by (rule lineLoop_hit)
    with True x show ?thesis by auto
  next
    case False
    then have "lineLoop sq (x # xs) = lineLoop sq xs"
      unfolding x by (rule lineLoop_miss)
    with False x Cons.IH show ?thesis by auto
  qed
qed


lemma lineLoop_append:
  "lineLoop sq pre = None \<Longrightarrow> lineLoop sq (pre @ ls) = lineLoop sq ls"
proof (induction pre)
  case Nil
  show ?case by simp
next
  case (Cons x xs)
  obtain a b c where x: "x = (a, b, c)" by (cases x)
  from Cons.prems have miss: "\<not> (\<exists>m. slot sq a = Filled m \<and> slot sq b = Filled m \<and> slot sq c = Filled m)"
    unfolding lineLoop_None_iff x by simp
  then have 1: "lineLoop sq (x # xs) = lineLoop sq xs" unfolding x by (rule lineLoop_miss)
  from miss have 2: "lineLoop sq (x # xs @ ls) = lineLoop sq (xs @ ls)"
    unfolding x by (rule lineLoop_miss)
  from 1 Cons.prems have "lineLoop sq xs = None" by simp
  from Cons.IH[OF this] 2 show ?case by simp
qed

lemma lineLoop_first:
  assumes k: "k < length ls" and l: "ls ! k = (a, b, c)"
    and m: "slot sq a = Filled m" "slot sq b = Filled m" "slot sq c = Filled m"
    and pre: "lineLoop sq (take k ls) = None"
  shows "lineLoop sq ls = Some (Won m [a, b, c])"
proof -
  from k l have "ls = take k ls @ (a, b, c) # drop (Suc k) ls"
    using id_take_nth_drop[of k ls] by simp
  then have "lineLoop sq ls = lineLoop sq (take k ls @ (a, b, c) # drop (Suc k) ls)"
    by simp
  also have "\<dots> = lineLoop sq ((a, b, c) # drop (Suc k) ls)"
    using pre by (rule lineLoop_append)
  also have "\<dots> = Some (Won m [a, b, c])"
    using m by (rule lineLoop_hit)
  finally show ?thesis .
qed








text \<open>
  C5: the win returned is the one of the first line, in the order rows 0 1 2, columns
  0 1 2, diagonal, anti-diagonal, that holds three equal marks: if line number \<open>k\<close> of
  that order does and no earlier one does, the result is its mark and its indices,
  whatever the later lines hold.
\<close>

theorem calculateWinner_first_line:
  assumes "k < length LINES" and "LINES ! k = (a, b, c)"
    and "slot sq a = Filled m" and "slot sq b = Filled m" and "slot sq c = Filled m"
    and "\<forall>j<k. \<forall>a' b' c'. LINES ! j = (a', b', c') \<longrightarrow>
           \<not> (\<exists>m'. slot sq a' = Filled m' \<and> slot sq b' = Filled m' \<and> slot sq c' = Filled m')"
  shows "LINES = [(0,1,2), (3,4,5), (6,7,8), (0,3,6), (1,4,7), (2,5,8), (0,4,8), (2,4,6)]
       \<and> calculateWinner sq = Some (Won m [a, b, c])"
proof -
  have "lineLoop sq (take k LINES) = None"
    unfolding lineLoop_None_iff
  proof (clarify)
    fix a' b' c' m'
    assume "(a', b', c') \<in> set (take k LINES)"
    then obtain j where "j < k" "j < length LINES" "LINES ! j = (a', b', c')"
      by (auto simp add: in_set_conv_nth)
    moreover assume "slot sq a' = Filled m'" "slot sq b' = Filled m'" "slot sq c' = Filled m'"
    ultimately show False using assms(6) by blast
  qed
  with assms have "lineLoop sq LINES = Some (Won m [a, b, c])"
    by (intro lineLoop_first[of k])
  then show ?thesis by (simp add: calculateWinner_def LINES_def)
qed

theorem calculateWinner_first_line_witness:
  "slot [Filled MarkX, Null, Null, Filled MarkX, Filled MarkX, Null, Filled MarkX, Null, Filled MarkX] 4 = Filled MarkX
   \<and> slot [Filled MarkX, Null, Null, Filled MarkX, Filled MarkX, Null, Filled MarkX, Null, Filled MarkX] 8 = Filled MarkX
   \<and> calculateWinner
       [Filled MarkX, Null, Null, Filled MarkX, Filled MarkX, Null, Filled MarkX, Null, Filled MarkX]
     = Some (Won MarkX [0, 3, 6])"
  using calculateWinner_first_line
    [of 3 0 3 6 "[Filled MarkX, Null, Null, Filled MarkX, Filled MarkX, Null, Filled MarkX, Null, Filled MarkX]" MarkX]
  by (simp add: LINES_def slot_def numeral_3_eq_3 less_Suc_eq)

section \<open>The computer's move\<close>

lemma find_filter: "find P (filter Q xs) = find (\<lambda>x. Q x \<and> P x) xs"
  by (induction xs) auto

lemma find_upt_Some:
  "find P [0..<n] = Some i \<longleftrightarrow> i < n \<and> P i \<and> (\<forall>j<i. \<not> P j)"
proof
  assume "find P [0..<n] = Some i"
  then obtain k where k: "k < length [0..<n]" "P ([0..<n] ! k)" "i = [0..<n] ! k"
      "\<forall>j<k. \<not> P ([0..<n] ! j)"
    unfolding find_Some_iff by blast
  then have "i = k" by simp
  with k show "i < n \<and> P i \<and> (\<forall>j<i. \<not> P j)" by simp
next
  assume a: "i < n \<and> P i \<and> (\<forall>j<i. \<not> P j)"
  show "find P [0..<n] = Some i"
    unfolding find_Some_iff
  proof (intro exI[of _ i] conjI)
    show "i < length [0..<n]" using a by simp
    show "P ([0..<n] ! i)" using a by simp
    show "i = [0..<n] ! i" using a by simp
    show "\<forall>j<i. \<not> P ([0..<n] ! j)" using a by simp
  qed
qed

lemma tier_Some:
  "find (completes b p) (emptyIndices b) = Some i \<longleftrightarrow>
     i < length b \<and> \<not> truthy (slot b i) \<and> completes b p i \<and>
     (\<forall>j<i. \<not> (\<not> truthy (slot b j) \<and> completes b p j))"
  unfolding emptyIndices_def find_filter find_upt_Some by blast

lemma winnerIs_iff: "winnerIs res p \<longleftrightarrow> (\<exists>l. res = Some (Won p l))"
  by (induction res p rule: winnerIs.induct) auto

lemma completes_iff:
  "i < length b \<Longrightarrow>
   completes b p i \<longleftrightarrow> (\<exists>l. calculateWinner (b[i := Filled p]) = Some (Won p l))"
  by (simp add: completes_def winnerIs_iff assign_def)

lemma wellFormed_empty_iff:
  "wellFormed b \<Longrightarrow> i < 9 \<Longrightarrow> \<not> truthy (slot b i) \<longleftrightarrow> b ! i = Null"
  by (cases "b ! i") (auto simp add: wellFormed_def slot_def list_all_length)

lemma pick_Some:
  "pick xs r = Some k \<Longrightarrow> k \<in> set xs"
  by (auto simp add: pick_def Let_def split: if_splits)

lemma pick_in_range:
  assumes "xs \<noteq> []" and "0 \<le> r" and "r < 1"
  shows "\<exists>k. pick xs r = Some k"
proof -
  have n: "0 < real (length xs)" using assms(1) by simp
  have "0 \<le> r * real (length xs)" using assms(2) by simp
  then have lo: "0 \<le> randomIndex r (length xs)" by (simp add: randomIndex_def)
  have "r * real (length xs) < real (length xs)" using assms(3) n by simp
  then have "\<lfloor>r * real (length xs)\<rfloor> < int (length xs)"
    by (simp add: floor_less_iff)
  then have hi: "randomIndex r (length xs) < int (length xs)" by (simp add: randomIndex_def)
  from lo hi show ?thesis by (simp add: pick_def Let_def)
qed

lemma findBestAIMove_cases:
  assumes "findBestAIMove b ai human r = Some k"
  shows "find (completes b ai) (emptyIndices b) = Some k
       \<or> find (completes b human) (emptyIndices b) = Some k
       \<or> (slot b 4 = Null \<and> k = 4)
       \<or> pick (filter (\<lambda>i. slot b i = Null) [0, 2, 6, 8]) r = Some k
       \<or> pick (filter (\<lambda>i. slot b i = Null) [1, 3, 5, 7]) r = Some k"
proof (cases "find (completes b ai) (emptyIndices b)")
  case (Some a)
  with assms show ?thesis by (simp add: findBestAIMove_def)
next
  case t1: None
  show ?thesis
  proof (cases "find (completes b human) (emptyIndices b)")
    case (Some a)
    with t1 assms show ?thesis by (simp add: findBestAIMove_def)
  next
    case t2: None
    show ?thesis
    proof (cases "slot b 4 = Null")
      case True
      with t1 t2 assms show ?thesis by (simp add: findBestAIMove_def)
    next
      case n4: False
      show ?thesis
      proof (cases "filter (\<lambda>i. slot b i = Null) [0, 2, 6, 8] = []")
        case False
        with t1 t2 n4 assms show ?thesis
          by (simp add: findBestAIMove_def Let_def del: filter.simps)
      next
        case True
        with t1 t2 n4 assms show ?thesis
          by (simp add: findBestAIMove_def Let_def del: filter.simps split: if_splits)
      qed
    qed
  qed
qed

lemma picked_empty:
  assumes "pick (filter (\<lambda>i. slot b i = Null) xs) r = Some k"
  shows "k \<in> set xs \<and> slot b k = Null"
  using pick_Some[OF assms] by simp

lemma findBestAIMove_Some:
  assumes wf: "wellFormed b" and res: "findBestAIMove b ai human r = Some k"
  shows "k < 9 \<and> b ! k = Null"
proof -
  have len: "length b = 9" using wf by (simp add: wellFormed_def)
  have slot9: "\<And>i. i < 9 \<Longrightarrow> slot b i = b ! i" using len by (simp add: slot_def)
  have tier: "k < 9 \<and> b ! k = Null" if "find (completes b p) (emptyIndices b) = Some k" for p
  proof -
    from that have "k < 9" "\<not> truthy (slot b k)" using len by (simp_all add: tier_Some)
    with wellFormed_empty_iff[OF wf] show ?thesis by simp
  qed
  have picked: "k < 9 \<and> b ! k = Null" if "k \<in> set xs \<and> slot b k = Null" "\<forall>x \<in> set xs. x < 9" for xs
  proof -
    from that have "k < 9" by blast
    with that(1) slot9 show ?thesis by simp
  qed
  from findBestAIMove_cases[OF res]
  consider (win) "find (completes b ai) (emptyIndices b) = Some k"
    | (block) "find (completes b human) (emptyIndices b) = Some k"
    | (centre) "slot b 4 = Null" "k = 4"
    | (corner) "pick (filter (\<lambda>i. slot b i = Null) [0, 2, 6, 8]) r = Some k"
    | (side) "pick (filter (\<lambda>i. slot b i = Null) [1, 3, 5, 7]) r = Some k"
    by blast
  then show ?thesis
  proof cases
    case win
    then show ?thesis by (rule tier)
  next
    case block
    then show ?thesis by (rule tier)
  next
    case centre
    then show ?thesis using slot9[of 4] by simp
  next
    case corner
    show ?thesis by (rule picked[OF picked_empty[OF corner]]) simp
  next
    case side
    show ?thesis by (rule picked[OF picked_empty[OF side]]) simp
  qed
qed

lemma below_nine:
  "i < (9::nat) \<Longrightarrow> i = 4 \<or> i \<in> {0, 2, 6, 8} \<or> i \<in> {1, 3, 5, 7}"
  by (simp add: eval_nat_numeral less_Suc_eq) blast

lemma findBestAIMove_not_None:
  assumes wf: "wellFormed b" and r: "0 \<le> r" "r < 1"
    and e: "i < 9" "b ! i = Null"
  shows "findBestAIMove b ai human r \<noteq> None"
proof -
  have len: "length b = 9" using wf by (simp add: wellFormed_def)
  have si: "slot b i = Null" using len e by (simp add: slot_def)
  let ?corners = "filter (\<lambda>i. slot b i = Null) [0, 2, 6, 8]"
  let ?sides = "filter (\<lambda>i. slot b i = Null) [1, 3, 5, 7]"
  have some: "slot b 4 = Null \<or> ?corners \<noteq> [] \<or> ?sides \<noteq> []"
    using below_nine[OF e(1)] si by (auto simp add: filter_empty_conv)
  have c: "?corners \<noteq> [] \<Longrightarrow> pick ?corners r \<noteq> None"
    using pick_in_range[of ?corners r] r by auto
  have s: "?sides \<noteq> [] \<Longrightarrow> pick ?sides r \<noteq> None"
    using pick_in_range[of ?sides r] r by auto
  show ?thesis
  proof (cases "find (completes b ai) (emptyIndices b)")
    case (Some a)
    then show ?thesis by (simp add: findBestAIMove_def)
  next
    case t1: None
    show ?thesis
    proof (cases "find (completes b human) (emptyIndices b)")
      case (Some a)
      with t1 show ?thesis by (simp add: findBestAIMove_def)
    next
      case t2: None
      show ?thesis
      proof (cases "slot b 4 = Null")
        case True
        with t1 t2 show ?thesis by (simp add: findBestAIMove_def)
      next
        case n4: False
        show ?thesis
        proof (cases "?corners = []")
          case False
          with t1 t2 n4 c show ?thesis by (simp add: findBestAIMove_def Let_def)
        next
          case True
          with some n4 have "?sides \<noteq> []" by blast
          with t1 t2 n4 True s show ?thesis by (simp add: findBestAIMove_def Let_def)
        qed
      qed
    qed
  qed
qed

text \<open>
  C7: for every board of nine cells, each empty or a mark, and every draw \<open>0 \<le> r < 1\<close>,
  \<^verbatim>\<open>findBestAIMove\<close> returns \<^verbatim>\<open>null\<close> only when no cell is empty, and when some cell
  is empty it returns an index below 9 whose cell is empty.
\<close>

theorem findBestAIMove_safe:
  assumes "wellFormed b" and "0 \<le> r" and "r < 1"
  shows "(findBestAIMove b ai human r = None \<longrightarrow> (\<forall>i<9. b ! i \<noteq> Null))
       \<and> ((\<exists>i<9. b ! i = Null) \<longrightarrow>
            (\<exists>k<9. findBestAIMove b ai human r = Some k \<and> b ! k = Null))"
proof -
  have 1: "findBestAIMove b ai human r \<noteq> None" if "i < 9" "b ! i = Null" for i
    using findBestAIMove_not_None[OF assms that] .
  have 2: "k < 9 \<and> b ! k = Null" if "findBestAIMove b ai human r = Some k" for k
    using findBestAIMove_Some[OF assms(1) that] .
  from 1 2 show ?thesis by (metis not_None_eq)
qed

theorem findBestAIMove_safe_witness:
  "wellFormed [Filled MarkX, Null, Null, Null, Filled MarkO, Null, Null, Null, Null]
   \<and> (0::real) \<le> 3 / 4 \<and> (3 / 4 :: real) < 1
   \<and> (\<exists>k<9. findBestAIMove [Filled MarkX, Null, Null, Null, Filled MarkO, Null, Null, Null, Null]
        MarkO MarkX (3 / 4) = Some k
        \<and> [Filled MarkX, Null, Null, Null, Filled MarkO, Null, Null, Null, Null] ! k = Null)"
proof -
  let ?b = "[Filled MarkX, Null, Null, Null, Filled MarkO, Null, Null, Null, Null]"
  have wf: "wellFormed ?b" by (simp add: wellFormed_def)
  have r: "(0::real) \<le> 3 / 4" "(3 / 4 :: real) < 1" by simp_all
  have e: "\<exists>i<9. ?b ! i = Null" by (intro exI[of _ 1]) simp
  from findBestAIMove_safe[OF wf r, of MarkO MarkX] e wf r show ?thesis by blast
qed

lemma upt_nine: "[0..<9] = [0, 1, 2, 3, 4, 5, 6, 7, 8]"
  by (simp add: upt_rec)

lemmas evaluate_move =
  findBestAIMove_def emptyIndices_def completes_def assign_def
  calculateWinner_def LINES_def slot_def upt_nine everyBoolean_def pick_def randomIndex_def

lemma tier_wellFormed_Some:
  assumes wf: "wellFormed b"
  shows "find (completes b p) (emptyIndices b) = Some i \<longleftrightarrow>
     i < 9 \<and> b ! i = Null \<and> (\<exists>l. calculateWinner (b[i := Filled p]) = Some (Won p l)) \<and>
     (\<forall>j<i. \<not> (b ! j = Null \<and> (\<exists>l. calculateWinner (b[j := Filled p]) = Some (Won p l))))"
proof -
  have len: "length b = 9" using wf by (simp add: wellFormed_def)
  have eq: "(\<not> truthy (slot b j) \<and> completes b p j) \<longleftrightarrow>
        (b ! j = Null \<and> (\<exists>l. calculateWinner (b[j := Filled p]) = Some (Won p l)))"
    if "j < 9" for j
    using that wellFormed_empty_iff[OF wf that] completes_iff[of j b p] len by simp
  show ?thesis
  proof (cases "i < 9")
    case True
    then have "\<And>j. j < i \<Longrightarrow> j < 9" by simp
    with eq True show ?thesis unfolding tier_Some len by auto
  next
    case False
    then show ?thesis unfolding tier_Some len by simp
  qed
qed

lemma tier_least:
  assumes wf: "wellFormed b"
    and ex: "\<exists>i<9. b ! i = Null \<and> (\<exists>l. calculateWinner (b[i := Filled p]) = Some (Won p l))"
  shows "\<exists>i<9. find (completes b p) (emptyIndices b) = Some i \<and> b ! i = Null \<and>
     (\<exists>l. calculateWinner (b[i := Filled p]) = Some (Won p l)) \<and>
     (\<forall>j<i. \<not> (b ! j = Null \<and> (\<exists>l. calculateWinner (b[j := Filled p]) = Some (Won p l))))"
proof -
  let ?Q = "\<lambda>i. i < 9 \<and> b ! i = Null \<and> (\<exists>l. calculateWinner (b[i := Filled p]) = Some (Won p l))"
  from ex have "\<exists>i. ?Q i" by blast
  then have q: "?Q (LEAST i. ?Q i)" by (rule LeastI_ex)
  have least: "\<not> ?Q j" if "j < (LEAST i. ?Q i)" for j
    using that by (rule not_less_Least)
  define i where "i = (LEAST i. ?Q i)"
  from q have qi: "?Q i" unfolding i_def .
  have "\<not> (b ! j = Null \<and> (\<exists>l. calculateWinner (b[j := Filled p]) = Some (Won p l)))"
    if "j < i" for j
  proof -
    from that qi have "j < 9" by simp
    with least[of j] that show ?thesis unfolding i_def by blast
  qed
  with qi have "find (completes b p) (emptyIndices b) = Some i"
    unfolding tier_wellFormed_Some[OF wf] by blast
  with qi \<open>\<And>j. j < i \<Longrightarrow> \<not> (b ! j = Null \<and> (\<exists>l. calculateWinner (b[j := Filled p]) = Some (Won p l)))\<close>
  show ?thesis by blast
qed

lemma tier_wellFormed_None:
  assumes wf: "wellFormed b"
    and no: "\<not> (\<exists>i<9. b ! i = Null \<and> (\<exists>l. calculateWinner (b[i := Filled p]) = Some (Won p l)))"
  shows "find (completes b p) (emptyIndices b) = None"
proof (cases "find (completes b p) (emptyIndices b)")
  case None
  then show ?thesis .
next
  case (Some i)
  then have "i < 9 \<and> b ! i = Null \<and> (\<exists>l. calculateWinner (b[i := Filled p]) = Some (Won p l))"
    unfolding tier_wellFormed_Some[OF wf] by blast
  with no show ?thesis by blast
qed

lemma findBestAIMove_first_tier:
  "find (completes b ai) (emptyIndices b) = Some i \<Longrightarrow> findBestAIMove b ai human r = Some i"
  by (simp add: findBestAIMove_def)

lemma findBestAIMove_second_tier:
  "find (completes b ai) (emptyIndices b) = None \<Longrightarrow>
   find (completes b human) (emptyIndices b) = Some i \<Longrightarrow> findBestAIMove b ai human r = Some i"
  by (simp add: findBestAIMove_def)

lemma findBestAIMove_O_O:
  "findBestAIMove [Filled MarkO, Filled MarkO, Null, Null, Null, Null, Null, Null, Null]
     MarkO human r = Some 2"
  by (simp add: evaluate_move)

lemma findBestAIMove_X_X:
  "findBestAIMove [Filled MarkX, Filled MarkX, Null, Null, Null, Null, Null, Null, Null]
     MarkO MarkX r = Some 2"
  by (simp add: evaluate_move)

text \<open>
  C3: on every board of nine cells, each empty or a mark: if some empty cell, filled with
  the computer's own mark, makes \<^verbatim>\<open>calculateWinner\<close> report a win of that mark, the
  move returned is the smallest such index, whatever the opponent threatens; otherwise,
  if some empty cell filled with the opponent's mark makes it report a win of the
  opponent, the move returned is the smallest such index. On O O and seven empty cells
  with own mark O the move is 2, and on X X and seven empty cells with own mark O and
  opponent X the move is 2. The two marks need not be distinct, and the draw \<open>r\<close> is any.
\<close>

theorem findBestAIMove_win_then_block:
  assumes wf: "wellFormed b"
  shows "((\<exists>i<9. b ! i = Null \<and> (\<exists>l. calculateWinner (b[i := Filled ai]) = Some (Won ai l))) \<longrightarrow>
          (\<exists>i<9. findBestAIMove b ai human r = Some i \<and> b ! i = Null \<and>
             (\<exists>l. calculateWinner (b[i := Filled ai]) = Some (Won ai l)) \<and>
             (\<forall>j<i. \<not> (b ! j = Null \<and>
                (\<exists>l. calculateWinner (b[j := Filled ai]) = Some (Won ai l))))))
       \<and> (\<not> (\<exists>i<9. b ! i = Null \<and> (\<exists>l. calculateWinner (b[i := Filled ai]) = Some (Won ai l))) \<and>
          (\<exists>i<9. b ! i = Null \<and> (\<exists>l. calculateWinner (b[i := Filled human]) = Some (Won human l))) \<longrightarrow>
          (\<exists>i<9. findBestAIMove b ai human r = Some i \<and> b ! i = Null \<and>
             (\<exists>l. calculateWinner (b[i := Filled human]) = Some (Won human l)) \<and>
             (\<forall>j<i. \<not> (b ! j = Null \<and>
                (\<exists>l. calculateWinner (b[j := Filled human]) = Some (Won human l))))))
       \<and> findBestAIMove [Filled MarkO, Filled MarkO, Null, Null, Null, Null, Null, Null, Null]
            MarkO human r = Some 2
       \<and> findBestAIMove [Filled MarkX, Filled MarkX, Null, Null, Null, Null, Null, Null, Null]
            MarkO MarkX r = Some 2"
proof (intro conjI impI)
  assume "\<exists>i<9. b ! i = Null \<and> (\<exists>l. calculateWinner (b[i := Filled ai]) = Some (Won ai l))"
  from tier_least[OF wf this] obtain i where
    i: "i < 9" "find (completes b ai) (emptyIndices b) = Some i" "b ! i = Null"
      "\<exists>l. calculateWinner (b[i := Filled ai]) = Some (Won ai l)"
      "\<forall>j<i. \<not> (b ! j = Null \<and> (\<exists>l. calculateWinner (b[j := Filled ai]) = Some (Won ai l)))"
    by blast
  from findBestAIMove_first_tier[OF i(2)] i
  show "\<exists>i<9. findBestAIMove b ai human r = Some i \<and> b ! i = Null \<and>
             (\<exists>l. calculateWinner (b[i := Filled ai]) = Some (Won ai l)) \<and>
             (\<forall>j<i. \<not> (b ! j = Null \<and>
                (\<exists>l. calculateWinner (b[j := Filled ai]) = Some (Won ai l))))"
    by blast
next
  assume a: "\<not> (\<exists>i<9. b ! i = Null \<and> (\<exists>l. calculateWinner (b[i := Filled ai]) = Some (Won ai l))) \<and>
          (\<exists>i<9. b ! i = Null \<and> (\<exists>l. calculateWinner (b[i := Filled human]) = Some (Won human l)))"
  from a have t1: "find (completes b ai) (emptyIndices b) = None"
    by (intro tier_wellFormed_None[OF wf]) simp
  from a have "\<exists>i<9. b ! i = Null \<and> (\<exists>l. calculateWinner (b[i := Filled human]) = Some (Won human l))"
    by simp
  from tier_least[OF wf this] obtain i where
    i: "i < 9" "find (completes b human) (emptyIndices b) = Some i" "b ! i = Null"
      "\<exists>l. calculateWinner (b[i := Filled human]) = Some (Won human l)"
      "\<forall>j<i. \<not> (b ! j = Null \<and> (\<exists>l. calculateWinner (b[j := Filled human]) = Some (Won human l)))"
    by blast
  from findBestAIMove_second_tier[OF t1 i(2)] i
  show "\<exists>i<9. findBestAIMove b ai human r = Some i \<and> b ! i = Null \<and>
             (\<exists>l. calculateWinner (b[i := Filled human]) = Some (Won human l)) \<and>
             (\<forall>j<i. \<not> (b ! j = Null \<and>
                (\<exists>l. calculateWinner (b[j := Filled human]) = Some (Won human l))))"
    by blast
next
  show "findBestAIMove [Filled MarkO, Filled MarkO, Null, Null, Null, Null, Null, Null, Null]
            MarkO human r = Some 2"
    by (rule findBestAIMove_O_O)
next
  show "findBestAIMove [Filled MarkX, Filled MarkX, Null, Null, Null, Null, Null, Null, Null]
            MarkO MarkX r = Some 2"
    by (rule findBestAIMove_X_X)
qed

theorem findBestAIMove_win_then_block_witness:
  "wellFormed [Filled MarkX, Filled MarkX, Null, Filled MarkO, Filled MarkO, Null, Null, Null, Null]
   \<and> (\<exists>i<9. [Filled MarkX, Filled MarkX, Null, Filled MarkO, Filled MarkO, Null, Null, Null, Null] ! i = Null
        \<and> (\<exists>l. calculateWinner
              ([Filled MarkX, Filled MarkX, Null, Filled MarkO, Filled MarkO, Null, Null, Null, Null]
                 [i := Filled MarkO]) = Some (Won MarkO l)))
   \<and> (\<exists>i<9. findBestAIMove
         [Filled MarkX, Filled MarkX, Null, Filled MarkO, Filled MarkO, Null, Null, Null, Null]
         MarkO MarkX 0 = Some i
        \<and> (\<exists>l. calculateWinner
              ([Filled MarkX, Filled MarkX, Null, Filled MarkO, Filled MarkO, Null, Null, Null, Null]
                 [i := Filled MarkO]) = Some (Won MarkO l)))
   \<and> findBestAIMove
         [Filled MarkX, Filled MarkX, Null, Filled MarkO, Filled MarkO, Null, Null, Null, Null]
         MarkO MarkX 0 = Some 5"
proof -
  let ?b = "[Filled MarkX, Filled MarkX, Null, Filled MarkO, Filled MarkO, Null, Null, Null, Null]"
  have wf: "wellFormed ?b" by (simp add: wellFormed_def)
  have "?b ! 5 = Null \<and> calculateWinner (?b[5 := Filled MarkO]) = Some (Won MarkO [3, 4, 5])"
    by (simp add: calculateWinner_def LINES_def slot_def)
  then have win: "\<exists>i<9. ?b ! i = Null \<and> (\<exists>l. calculateWinner (?b[i := Filled MarkO]) = Some (Won MarkO l))"
    by (intro exI[of _ 5]) simp
  have five: "findBestAIMove ?b MarkO MarkX 0 = Some 5" by (simp add: evaluate_move)
  from findBestAIMove_win_then_block[OF wf, of MarkO MarkX 0] win
  have "\<exists>i<9. findBestAIMove ?b MarkO MarkX 0 = Some i \<and>
      (\<exists>l. calculateWinner (?b[i := Filled MarkO]) = Some (Won MarkO l))"
    by blast
  with wf win five show ?thesis by blast
qed

text \<open>
  C8: on every board where some empty index completes a line for the computer's own mark
  (tier 1) or for the opponent's (tier 2), one such index is the move returned at every
  draw, so any two draws give the same index. Two draws can give different results only
  when neither tier has a move and the
  centre is not empty; every move returned then is an empty corner, or an empty side
  while no corner is empty.
\<close>

theorem findBestAIMove_random_only_late:
  "((\<exists>i \<in> set (emptyIndices b). completes b ai i \<or> completes b human i) \<longrightarrow>
       (\<exists>k \<in> set (emptyIndices b).
          (completes b ai k \<or> completes b human k) \<and>
          (\<forall>r. findBestAIMove b ai human r = Some k))
       \<and> findBestAIMove b ai human r1 = findBestAIMove b ai human r2)
   \<and> (findBestAIMove b ai human r1 \<noteq> findBestAIMove b ai human r2 \<longrightarrow>
       (\<forall>i \<in> set (emptyIndices b). \<not> completes b ai i \<and> \<not> completes b human i)
       \<and> slot b 4 \<noteq> Null
       \<and> (\<forall>r k. findBestAIMove b ai human r = Some k \<longrightarrow>
            slot b k = Null \<and>
            (k \<in> {0, 2, 6, 8} \<or>
             k \<in> {1, 3, 5, 7} \<and> (\<forall>c \<in> {0, 2, 6, 8}. slot b c \<noteq> Null))))"
proof -
  let ?t1 = "find (completes b ai) (emptyIndices b)"
  let ?t2 = "find (completes b human) (emptyIndices b)"
  let ?corners = "filter (\<lambda>i. slot b i = Null) [0, 2, 6, 8]"
  let ?sides = "filter (\<lambda>i. slot b i = Null) [1, 3, 5, 7]"
  have early: "findBestAIMove b ai human r1 = findBestAIMove b ai human r2"
    if "?t1 \<noteq> None \<or> ?t2 \<noteq> None \<or> slot b 4 = Null"
  proof (cases ?t1)
    case (Some i)
    then show ?thesis by (simp add: findBestAIMove_first_tier)
  next
    case t1: None
    show ?thesis
    proof (cases ?t2)
      case (Some i)
      with t1 show ?thesis by (simp add: findBestAIMove_second_tier)
    next
      case None
      with t1 that have "slot b 4 = Null" by simp
      with t1 None show ?thesis by (simp add: findBestAIMove_def)
    qed
  qed
  have tiers: "(?t1 \<noteq> None \<or> ?t2 \<noteq> None) \<longleftrightarrow>
      (\<exists>i \<in> set (emptyIndices b). completes b ai i \<or> completes b human i)"
    unfolding find_None_iff by blast
  have found: "k \<in> set (emptyIndices b) \<and> completes b p k"
    if "find (completes b p) (emptyIndices b) = Some k" for p k
    using that unfolding find_Some_iff by auto
  have fixed: "\<exists>k \<in> set (emptyIndices b).
          (completes b ai k \<or> completes b human k) \<and>
          (\<forall>r. findBestAIMove b ai human r = Some k)"
    if "?t1 \<noteq> None \<or> ?t2 \<noteq> None"
  proof (cases ?t1)
    case (Some k)
    then have "\<forall>r. findBestAIMove b ai human r = Some k"
      by (simp add: findBestAIMove_first_tier)
    with found[OF Some] show ?thesis by blast
  next
    case t1: None
    with that obtain k where t2: "?t2 = Some k" by auto
    with t1 have "\<forall>r. findBestAIMove b ai human r = Some k"
      by (simp add: findBestAIMove_second_tier)
    with found[OF t2] show ?thesis by blast
  qed
  have late: "slot b k = Null \<and>
            (k \<in> {0, 2, 6, 8} \<or>
             k \<in> {1, 3, 5, 7} \<and> (\<forall>c \<in> {0, 2, 6, 8}. slot b c \<noteq> Null))"
    if none: "?t1 = None" "?t2 = None" "slot b 4 \<noteq> Null"
      and res: "findBestAIMove b ai human r = Some k" for r k
  proof (cases "?corners = []")
    case False
    with none res have "pick ?corners r = Some k"
      by (simp add: findBestAIMove_def Let_def del: filter.simps)
    from picked_empty[OF this] show ?thesis by simp
  next
    case True
    with none res have "pick ?sides r = Some k"
      by (simp add: findBestAIMove_def Let_def del: filter.simps split: if_splits)
    from picked_empty[OF this] have "k \<in> {1, 3, 5, 7} \<and> slot b k = Null" by simp
    moreover from True have "\<forall>c \<in> {0, 2, 6, 8}. slot b c \<noteq> Null"
      unfolding filter_empty_conv by simp
    ultimately show ?thesis by blast
  qed
  show ?thesis
  proof (intro conjI impI)
    assume "\<exists>i \<in> set (emptyIndices b). completes b ai i \<or> completes b human i"
    with tiers have t: "?t1 \<noteq> None \<or> ?t2 \<noteq> None" by simp
    then show "findBestAIMove b ai human r1 = findBestAIMove b ai human r2"
      using early by blast
    from t show "\<exists>k \<in> set (emptyIndices b).
          (completes b ai k \<or> completes b human k) \<and>
          (\<forall>r. findBestAIMove b ai human r = Some k)"
      by (rule fixed)
  next
    assume d: "findBestAIMove b ai human r1 \<noteq> findBestAIMove b ai human r2"
    with early have n: "?t1 = None" "?t2 = None" "slot b 4 \<noteq> Null" by blast+
    with tiers show "\<forall>i \<in> set (emptyIndices b). \<not> completes b ai i \<and> \<not> completes b human i"
      by blast
    from n show "slot b 4 \<noteq> Null" by simp
    from n late show "\<forall>r k. findBestAIMove b ai human r = Some k \<longrightarrow>
            slot b k = Null \<and>
            (k \<in> {0, 2, 6, 8} \<or>
             k \<in> {1, 3, 5, 7} \<and> (\<forall>c \<in> {0, 2, 6, 8}. slot b c \<noteq> Null))"
      by blast
  qed
qed

theorem findBestAIMove_random_only_late_witness:
  "(\<exists>k. findBestAIMove [Filled MarkX, Filled MarkX, Null, Null, Null, Null, Null, Null, Null] MarkO MarkX 0 = Some k
       \<and> findBestAIMove [Filled MarkX, Filled MarkX, Null, Null, Null, Null, Null, Null, Null] MarkO MarkX (3 / 4) = Some k
       \<and> completes [Filled MarkX, Filled MarkX, Null, Null, Null, Null, Null, Null, Null] MarkX k)
   \<and> findBestAIMove [Filled MarkX, Filled MarkX, Null, Null, Null, Null, Null, Null, Null] MarkO MarkX 0 = Some 2
   \<and> findBestAIMove [Filled MarkX, Null, Null, Null, Filled MarkO, Null, Null, Null, Null] MarkO MarkX 0 = Some 2
   \<and> findBestAIMove [Filled MarkX, Null, Null, Null, Filled MarkO, Null, Null, Null, Null] MarkO MarkX (3 / 4) = Some 8
   \<and> slot [Filled MarkX, Null, Null, Null, Filled MarkO, Null, Null, Null, Null] 4 \<noteq> Null"
proof -
  let ?a = "[Filled MarkX, Filled MarkX, Null, Null, Null, Null, Null, Null, Null]"
  let ?b = "[Filled MarkX, Null, Null, Null, Filled MarkO, Null, Null, Null, Null]"
  have "2 \<in> set (emptyIndices ?a) \<and> completes ?a MarkX 2"
    by (simp add: evaluate_move)
  then have "\<exists>i \<in> set (emptyIndices ?a). completes ?a MarkO i \<or> completes ?a MarkX i"
    by blast
  with findBestAIMove_random_only_late[of ?a MarkO MarkX 0 "3 / 4"]
  obtain k where k: "completes ?a MarkO k \<or> completes ?a MarkX k"
      "\<forall>r. findBestAIMove ?a MarkO MarkX r = Some k"
    by blast
  have two: "findBestAIMove ?a MarkO MarkX 0 = Some 2" by (simp add: evaluate_move)
  with k(2) have "k = 2" by simp
  have "completes ?a MarkX 2" by (simp add: evaluate_move)
  with k(2) \<open>k = 2\<close>
  have 1: "\<exists>k. findBestAIMove ?a MarkO MarkX 0 = Some k
       \<and> findBestAIMove ?a MarkO MarkX (3 / 4) = Some k \<and> completes ?a MarkX k"
    by blast
  have 2: "findBestAIMove ?b MarkO MarkX 0 = Some 2" by (simp add: evaluate_move)
  have 3: "findBestAIMove ?b MarkO MarkX (3 / 4) = Some 8" by (simp add: evaluate_move)
  from 2 3 have "findBestAIMove ?b MarkO MarkX 0 \<noteq> findBestAIMove ?b MarkO MarkX (3 / 4)"
    by simp
  with findBestAIMove_random_only_late[of ?b MarkO MarkX 0 "3 / 4"]
  have 4: "slot ?b 4 \<noteq> Null"
    by blast
  from 1 two 2 3 4 show ?thesis by blast
qed

lemma pickRandomMove_full:
  assumes "wellFormed b" and "\<forall>i<9. b ! i \<noteq> Null"
  shows "pickRandomMove b r = None"
proof -
  have len: "length b = 9" using assms(1) by (simp add: wellFormed_def)
  with assms(2) have "filter (\<lambda>i. slot b i = Null) [0..<length b] = []"
    by (simp add: filter_empty_conv slot_def)
  then show ?thesis by (simp add: pickRandomMove_def)
qed

text \<open>
  C10: the fallback \<^verbatim>\<open>?? pickRandomMove(board)\<close> of the computer's move never decides:
  on every board of nine cells, each empty or a mark, with a draw \<open>0 \<le> r1 < 1\<close>,
  \<^verbatim>\<open>findBestAIMove\<close> returns a move when some cell is empty, on a full board both
  functions return \<^verbatim>\<open>null\<close>, and so the move chosen is always the one of
  \<^verbatim>\<open>findBestAIMove\<close>.
\<close>

theorem pickRandomMove_unreachable:
  assumes wf: "wellFormed b" and r: "0 \<le> r1" "r1 < 1"
  shows "((\<exists>i<9. b ! i = Null) \<longrightarrow> findBestAIMove b MarkO MarkX r1 \<noteq> None)
       \<and> ((\<forall>i<9. b ! i \<noteq> Null) \<longrightarrow>
            findBestAIMove b MarkO MarkX r1 = None \<and> pickRandomMove b r2 = None)
       \<and> chosenMove b r1 r2 = findBestAIMove b MarkO MarkX r1"
proof -
  have some: "findBestAIMove b MarkO MarkX r1 \<noteq> None" if "\<exists>i<9. b ! i = Null"
    using that findBestAIMove_not_None[OF wf r] by blast
  have full: "findBestAIMove b MarkO MarkX r1 = None \<and> pickRandomMove b r2 = None"
    if f: "\<forall>i<9. b ! i \<noteq> Null"
  proof -
    have "findBestAIMove b MarkO MarkX r1 = None"
    proof (cases "findBestAIMove b MarkO MarkX r1")
      case None
      then show ?thesis .
    next
      case (Some k)
      from findBestAIMove_Some[OF wf this] f show ?thesis by blast
    qed
    with pickRandomMove_full[OF wf f] show ?thesis by simp
  qed
  have "chosenMove b r1 r2 = findBestAIMove b MarkO MarkX r1"
  proof (cases "findBestAIMove b MarkO MarkX r1")
    case (Some k)
    then show ?thesis by (simp add: chosenMove_def)
  next
    case None
    with some have "\<forall>i<9. b ! i \<noteq> Null" by blast
    with full None show ?thesis by (simp add: chosenMove_def)
  qed
  with some full show ?thesis by blast
qed

theorem pickRandomMove_unreachable_witness:
  "wellFormed [Filled MarkX, Null, Null, Null, Filled MarkO, Null, Null, Null, Null]
   \<and> (0::real) \<le> 3 / 4 \<and> (3 / 4 :: real) < 1
   \<and> findBestAIMove [Filled MarkX, Null, Null, Null, Filled MarkO, Null, Null, Null, Null]
        MarkO MarkX (3 / 4) \<noteq> None
   \<and> chosenMove [Filled MarkX, Null, Null, Null, Filled MarkO, Null, Null, Null, Null] (3 / 4) 0
      = findBestAIMove [Filled MarkX, Null, Null, Null, Filled MarkO, Null, Null, Null, Null]
          MarkO MarkX (3 / 4)"
proof -
  let ?b = "[Filled MarkX, Null, Null, Null, Filled MarkO, Null, Null, Null, Null]"
  have wf: "wellFormed ?b" by (simp add: wellFormed_def)
  have r: "(0::real) \<le> 3 / 4" "(3 / 4 :: real) < 1" by simp_all
  have e: "\<exists>i<9. ?b ! i = Null" by (intro exI[of _ 1]) simp
  from pickRandomMove_unreachable[OF wf r, of 0] e wf r show ?thesis by blast
qed

section \<open>The scoreboard\<close>

lemma boardEffect_board: "board (boardEffect s) = board s"
  by (simp add: boardEffect_def split: option.splits result.splits)

lemma boardEffect_scores:
  "scores (boardEffect s) =
     (case calculateWinner (board s) of
        Some (Won m l) \<Rightarrow> bump m (scores s)
      | Some Draw \<Rightarrow> (scores s)\<lparr> draws := draws (scores s) + 1 \<rparr>
      | None \<Rightarrow> scores s)"
  by (simp add: boardEffect_def split: option.splits result.splits)

lemma step_shape:
  assumes "op \<noteq> ResetScores"
  shows "step s op = s
       \<or> (calculateWinner (board s) = None \<and>
          (\<exists>s1. scores s1 = scores s \<and> step s op = boardEffect s1))
       \<or> (board (step s op) = emptyBoard \<and> scores (step s op) = scores s)"
proof (cases op)
  case (Click i)
  show ?thesis
  proof (cases "handleClick s i = s")
    case True
    with Click show ?thesis by simp
  next
    case False
    then have "calculateWinner (board s) = None"
      by (auto simp add: handleClick_def split: if_splits)
    moreover from False have "handleClick s i = boardEffect
             (s\<lparr> board := assign (board s) i (Filled (if xIsNext s then MarkX else MarkO)),
                 xIsNext := \<not> xIsNext s \<rparr>)"
      by (simp add: handleClick_def split: if_splits)
    ultimately show ?thesis using Click
      by (intro disjI2 disjI1 conjI exI[of _ "s\<lparr> board := assign (board s) i (Filled (if xIsNext s then MarkX else MarkO)),
                 xIsNext := \<not> xIsNext s \<rparr>"]) simp_all
  qed
next
  case (CpuTimer r1 r2)
  show ?thesis
  proof (cases "cpuMove s r1 r2 = s")
    case True
    with CpuTimer show ?thesis by simp
  next
    case False
    then have n: "calculateWinner (board s) = None"
      by (auto simp add: cpuMove_def split: if_splits)
    from False obtain mv where "cpuMove s r1 r2 =
        boardEffect (s\<lparr> board := assign (board s) mv (Filled MarkO), xIsNext := True \<rparr>)"
      by (auto simp add: cpuMove_def split: if_splits option.splits)
    with n CpuTimer show ?thesis
      by (intro disjI2 disjI1 conjI exI[of _ "s\<lparr> board := assign (board s) mv (Filled MarkO), xIsNext := True \<rparr>"]) simp_all
  qed
next
  case ResetBoard
  then show ?thesis by (simp add: resetBoard_eq)
next
  case ResetScores
  with assms show ?thesis by simp
next
  case (SelectMode m)
  then show ?thesis by (simp add: selectMode_def resetBoard_eq)
qed

text \<open>
  C4: take any session state, as reached along any sequence of operations, and any next
  operation other than resetting the scores. If the game was ongoing and the operation
  leaves a board won by a mark, exactly the counter of that mark is one higher; if the
  game was ongoing and the operation leaves a drawn board, exactly the draw counter is
  one higher; in every other case (the game was already won or drawn, so its board has
  been counted, or the game is still ongoing afterwards) the scoreboard is unchanged.
\<close>

theorem scores_change_on_terminal_transition_only:
  assumes "op \<noteq> ResetScores"
  shows "(\<forall>m l. calculateWinner (board s) = None \<and>
            calculateWinner (board (step s op)) = Some (Won m l) \<longrightarrow>
            scores (step s op) =
              (case m of MarkX \<Rightarrow> (scores s)\<lparr> xWins := xWins (scores s) + 1 \<rparr>
                       | MarkO \<Rightarrow> (scores s)\<lparr> oWins := oWins (scores s) + 1 \<rparr>))
       \<and> (calculateWinner (board s) = None \<and>
            calculateWinner (board (step s op)) = Some Draw \<longrightarrow>
            scores (step s op) = (scores s)\<lparr> draws := draws (scores s) + 1 \<rparr>)
       \<and> (calculateWinner (board s) \<noteq> None \<or> calculateWinner (board (step s op)) = None \<longrightarrow>
            scores (step s op) = scores s)"
proof -
  from step_shape[OF assms, of s]
  consider (same) "step s op = s"
    | (moved) s1 where "calculateWinner (board s) = None" "scores s1 = scores s"
        "step s op = boardEffect s1"
    | (cleared) "board (step s op) = emptyBoard" "scores (step s op) = scores s"
    by blast
  then show ?thesis
  proof cases
    case same
    then show ?thesis by auto
  next
    case moved
    have b: "board (step s op) = board s1" using moved(3) by (simp add: boardEffect_board)
    have sc: "scores (step s op) =
     (case calculateWinner (board s1) of
        Some (Won m l) \<Rightarrow> bump m (scores s)
      | Some Draw \<Rightarrow> (scores s)\<lparr> draws := draws (scores s) + 1 \<rparr>
      | None \<Rightarrow> scores s)"
      using boardEffect_scores[of s1] unfolding moved(2) moved(3) .
    have bumpX: "bump MarkX (scores s) = (scores s)\<lparr> xWins := xWins (scores s) + 1 \<rparr>" by simp
    have bumpO: "bump MarkO (scores s) = (scores s)\<lparr> oWins := oWins (scores s) + 1 \<rparr>" by simp
    show ?thesis
    proof (cases "calculateWinner (board s1)")
      case None
      with b sc moved(1) show ?thesis by simp
    next
      case (Some res)
      show ?thesis
      proof (cases res)
        case (Won m l)
        with Some b sc moved(1) bumpX bumpO show ?thesis by (cases m) simp_all
      next
        case Draw
        with Some b sc moved(1) show ?thesis by simp
      qed
    qed
  next
    case cleared
    then show ?thesis by (simp add: calculateWinner_emptyBoard)
  qed
qed

lemmas evaluate_step =
  handleClick_def boardEffect_def initial_def emptyBoard_slots assign_def slot_def
  calculateWinner_def LINES_def everyBoolean_def

theorem scores_change_on_terminal_transition_only_witness:
  "Click 2 \<noteq> ResetScores
   \<and> calculateWinner (board (foldl step initial [Click 0, Click 4, Click 1, Click 7])) = None
   \<and> calculateWinner (board (step (foldl step initial [Click 0, Click 4, Click 1, Click 7]) (Click 2)))
       = Some (Won MarkX [0, 1, 2])
   \<and> scores (step (foldl step initial [Click 0, Click 4, Click 1, Click 7]) (Click 2))
       = \<lparr> xWins = 1, oWins = 0, draws = 0 \<rparr>
   \<and> scores (step (step (foldl step initial [Click 0, Click 4, Click 1, Click 7]) (Click 2)) (Click 5))
       = \<lparr> xWins = 1, oWins = 0, draws = 0 \<rparr>"
proof -
  let ?s = "foldl step initial [Click 0, Click 4, Click 1, Click 7]"
  have s: "?s = \<lparr> board = [Filled MarkX, Filled MarkX, Null, Null, Filled MarkO, Null, Null, Filled MarkO, Null],
                  xIsNext = True, mode = Pvp,
                  scores = \<lparr> xWins = 0, oWins = 0, draws = 0 \<rparr>, highlight = [] \<rparr>"
    by (simp add: evaluate_step)
  have t: "step ?s (Click 2) =
            \<lparr> board = [Filled MarkX, Filled MarkX, Filled MarkX, Null, Filled MarkO, Null, Null, Filled MarkO, Null],
              xIsNext = False, mode = Pvp,
              scores = \<lparr> xWins = 1, oWins = 0, draws = 0 \<rparr>, highlight = [0, 1, 2] \<rparr>"
    unfolding s by (simp add: evaluate_step)
  have before: "calculateWinner (board ?s) = None"
    unfolding s by (simp add: calculateWinner_def LINES_def slot_def everyBoolean_def)
  have after: "calculateWinner (board (step ?s (Click 2))) = Some (Won MarkX [0, 1, 2])"
    unfolding t by (simp add: calculateWinner_def LINES_def slot_def)
  have 1: "Click 2 \<noteq> ResetScores" "Click 5 \<noteq> ResetScores" by simp_all
  from scores_change_on_terminal_transition_only[OF 1(1), of ?s] before after
  have "scores (step ?s (Click 2)) = (scores ?s)\<lparr> xWins := xWins (scores ?s) + 1 \<rparr>"
    by simp
  then have 2: "scores (step ?s (Click 2)) = \<lparr> xWins = 1, oWins = 0, draws = 0 \<rparr>"
    unfolding s by simp
  from scores_change_on_terminal_transition_only[OF 1(2), of "step ?s (Click 2)"] after
  have "scores (step (step ?s (Click 2)) (Click 5)) = scores (step ?s (Click 2))"
    by simp
  with 1 2 before after show ?thesis by simp
qed

end
